theory Spec2Isabelle
  imports Main "HOL-Library.Word"
begin

unbundle bit_operations_syntax

section \<open>Common types\<close>

text \<open>
  The target is an 8051 derivative (ADuC841) compiled with a 16-bit \<open>int\<close>:
  \<open>unsigned char\<close> is 8 bits, \<open>unsigned short int\<close> and \<open>unsigned int\<close> are 16 bits,
  and a \<open>bit\<close> variable or a port pin holds one bit. On a \<open>bit\<close> operand the
  compiler's \<open>~\<close> is the complement of that bit, as the source comments say
  ("invert the output pin", "change flashing state").
\<close>

type_synonym uint8 = "8 word"
type_synonym uint16 = "16 word"

section \<open>Software delay\<close>

text \<open>
  \<^verbatim>\<open>void delay (uint16 delayVal)
  { uint16 i; for (i = 0; i < delayVal; i++) { } }\<close>
  The same function stands in both programs that use it. The loop is modelled with its
  16-bit counter; the model threads the program state \<open>s\<close> through the empty body and
  counts the iterations in \<open>n\<close>.
\<close>

function delay_loop :: "uint16 \<Rightarrow> uint16 \<Rightarrow> nat \<Rightarrow> 's \<Rightarrow> nat \<times> 's" where
  "delay_loop i delayVal n s =
     (if i < delayVal then delay_loop (i + 1) delayVal (Suc n) s else (n, s))"
  by pat_completeness auto
termination
proof (relation "measure (\<lambda>(i, delayVal, n, s). unat delayVal - unat i)")
  show "wf (measure (\<lambda>(i :: uint16, delayVal :: uint16, n :: nat, s :: 's). unat delayVal - unat i))"
    by simp
next
  fix i delayVal :: uint16 and n :: nat and s :: 's
  assume lt: "i < delayVal"
  then have below: "unat i < unat delayVal"
    by (simp add: word_less_nat_alt)
  moreover have "unat delayVal < 2 ^ LENGTH(16)"
    by (rule unsigned_less)
  ultimately have "Suc (unat i) < 2 ^ LENGTH(16)"
    by linarith
  then have "unat i + unat (1 :: uint16) < 2 ^ LENGTH(16)"
    by simp
  then have "unat (i + 1) = unat i + unat (1 :: uint16)"
    by (simp only: unat_add_lem)
  with below show "((i + 1, delayVal, Suc n, s), (i, delayVal, n, s))
      \<in> measure (\<lambda>(i, delayVal, n, s). unat delayVal - unat i)"
    by simp
qed

definition delay :: "uint16 \<Rightarrow> 's \<Rightarrow> nat \<times> 's" where
  "delay delayVal s = delay_loop 0 delayVal 0 s"

section \<open>Event flag set by the timer 0 interrupt (first program)\<close>

text \<open>\<^verbatim>\<open>#define NUM_INTS 11059\<close>: number of interrupts between events.\<close>

definition NUM_INTS :: uint16 where
  "NUM_INTS = 11059"

text \<open>
  The two globals \<open>TimerTick\<close> (\<open>unsigned int\<close>) and \<open>TimeOver\<close> (\<open>bit\<close>), and
  port 3, whose bit 4 drives the LED.
\<close>

record stateA =
  TimerTick :: uint16
  TimeOver :: bool
  P3 :: uint8

text \<open>
  \<^verbatim>\<open>TimerTick++; if (TimerTick > NUM_INTS) { TimerTick = 0; TimeOver = 1; }\<close>
  The threshold is an argument, so that the handler can be studied for any value of
  the macro; the program passes \<open>NUM_INTS\<close>.
\<close>

definition timer0_A :: "uint16 \<Rightarrow> stateA \<Rightarrow> stateA" where
  "timer0_A num_ints s =
     (let s = s\<lparr>TimerTick := TimerTick s + 1\<rparr>
      in if TimerTick s > num_ints
         then (s\<lparr>TimerTick := 0\<rparr>)\<lparr>TimeOver := True\<rparr>
         else s)"

text \<open>
  \<^verbatim>\<open>while(!TimeOver);\<close> as the foreground runs it with no interrupt in between: it
  leaves the state as it is, and it does not return (\<open>None\<close>) while the flag is clear.
\<close>

partial_function (option) wait_TimeOver :: "stateA \<Rightarrow> stateA option" where
  "wait_TimeOver s = (if \<not> TimeOver s then wait_TimeOver s else Some s)"

text \<open>
  One pass of the body of \<open>main\<close>'s \<open>while (1)\<close>:
  \<^verbatim>\<open>while(!TimeOver); P3 ^= 0x10; TimeOver = 0;\<close>
\<close>

definition main_loop_A :: "stateA \<Rightarrow> stateA option" where
  "main_loop_A s =
     (case wait_TimeOver s of
        None \<Rightarrow> None
      | Some s \<Rightarrow> Some ((s\<lparr>P3 := P3 s XOR 0x10\<rparr>)\<lparr>TimeOver := False\<rparr>))"

text \<open>
  One timer interrupt, followed by the foreground running until it waits for the flag
  again: a pass of the loop body when the flag is set, nothing when it is clear. This is
  the schedule of a foreground that is fast against the interrupt period.
\<close>

definition tick_A :: "uint16 \<Rightarrow> stateA \<Rightarrow> stateA" where
  "tick_A num_ints s =
     (let s = timer0_A num_ints s
      in case main_loop_A s of None \<Rightarrow> s | Some s' \<Rightarrow> s')"

text \<open>
  Whether the handler, called in state \<open>s\<close>, sets the flag: it is called with the
  flag cleared, and the flag is read afterwards.
\<close>

definition sets_TimeOver :: "uint16 \<Rightarrow> stateA \<Rightarrow> bool" where
  "sets_TimeOver num_ints s = TimeOver (timer0_A num_ints (s\<lparr>TimeOver := False\<rparr>))"

text \<open>The state at start-up: the globals are zero, the port register contains 0xFF.\<close>

definition reset_A :: stateA where
  "reset_A = \<lparr>TimerTick = 0, TimeOver = False, P3 = 0xFF\<rparr>"

section \<open>Phase accumulator in the timer 0 interrupt, walking LEDs (second program)\<close>

definition HIGH_BYTE :: uint16 where
  "HIGH_BYTE = 0xFF00"

definition LOW_BYTE_B :: uint16 where
  "LOW_BYTE_B = 0xFF"

definition TOP_BIT :: uint8 where
  "TOP_BIT = 0x80"

definition LOW_NIBBLE :: uint8 where
  "LOW_NIBBLE = 0x0F"

text \<open>
  The global \<open>Increment\<close>, the static locals \<open>Counter\<close> (of \<open>timer0\<close>), \<open>pattern\<close>
  and \<open>direction\<close> (of \<open>LEDwalk\<close>), \<open>main\<close>'s local \<open>Swit\<close>, the output pin P3.6,
  the LEDs on port 0 and the two interrupt enable bits.
\<close>

record stateB =
  Counter :: uint16
  Increment :: uint8
  OUT_PIN_B :: bool
  pattern :: uint8
  direction :: bool
  LED_BANK_B :: uint8
  Swit :: uint8
  ET0_B :: bool
  EA_B :: bool

text \<open>
  \<^verbatim>\<open>Counter += Increment;
  if (Counter & HIGH_BYTE) { OUT_PIN = ~OUT_PIN; Counter &= LOW_BYTE; }\<close>
\<close>

definition timer0_B :: "stateB \<Rightarrow> stateB" where
  "timer0_B s =
     (let s = s\<lparr>Counter := Counter s + ucast (Increment s)\<rparr>
      in if Counter s AND HIGH_BYTE \<noteq> 0
         then (s\<lparr>OUT_PIN_B := \<not> OUT_PIN_B s\<rparr>)\<lparr>Counter := Counter s AND LOW_BYTE_B\<rparr>
         else s)"

text \<open>
  \<^verbatim>\<open>if (direction) { pattern <<= 1; if (pattern == 0x80) direction = 0; }
  else { pattern >>= 1; if (pattern == 0x01) direction = 1; }
  LED_BANK = ~pattern;\<close>
\<close>

definition LEDwalk :: "stateB \<Rightarrow> stateB" where
  "LEDwalk s =
     (let s = (if direction s
               then (let s = s\<lparr>pattern := push_bit 1 (pattern s)\<rparr>
                     in if pattern s = 0x80 then s\<lparr>direction := False\<rparr> else s)
               else (let s = s\<lparr>pattern := drop_bit 1 (pattern s)\<rparr>
                     in if pattern s = 0x01 then s\<lparr>direction := True\<rparr> else s))
      in s\<lparr>LED_BANK_B := NOT (pattern s)\<rparr>)"

text \<open>
  What can happen next in the second program: the timer 0 interrupt is raised (the
  handler runs when both enable bits are set), or the foreground executes one of the
  statements of its loop. \<open>Read_SWITCHES sw\<close> is \<^verbatim>\<open>Swit = SWITCHES\<close> with the port
  reading \<open>sw\<close>.
\<close>

datatype eventB =
  Interrupt
| Read_SWITCHES uint8
| Set_ET0
| Set_Increment
| Call_LEDwalk
| Call_delay

fun exec_B :: "eventB \<Rightarrow> stateB \<Rightarrow> stateB" where
  "exec_B Interrupt s = (if EA_B s \<and> ET0_B s then timer0_B s else s)"
| "exec_B (Read_SWITCHES sw) s = s\<lparr>Swit := sw\<rparr>"
| "exec_B Set_ET0 s = s\<lparr>ET0_B := (Swit s AND TOP_BIT = TOP_BIT)\<rparr>"
| "exec_B Set_Increment s = s\<lparr>Increment := (Swit s AND LOW_NIBBLE) + 1\<rparr>"
| "exec_B Call_LEDwalk s = LEDwalk s"
| "exec_B Call_delay s = snd (delay 60000 s)"

fun run_B :: "eventB list \<Rightarrow> stateB \<Rightarrow> stateB" where
  "run_B [] s = s"
| "run_B (e # es) s = run_B es (exec_B e s)"

text \<open>One pass of the body of \<open>main\<close>'s \<open>while (1)\<close>, with no interrupt in between.\<close>

definition main_loop_B :: "uint8 \<Rightarrow> stateB \<Rightarrow> stateB" where
  "main_loop_B sw s =
     run_B [Read_SWITCHES sw, Set_ET0, Set_Increment, Call_LEDwalk, Call_delay] s"

text \<open>
  The number of handler calls, among the first \<open>n\<close> from state \<open>s\<close>, that change
  the output pin.
\<close>

fun toggles :: "nat \<Rightarrow> stateB \<Rightarrow> nat" where
  "toggles 0 s = 0"
| "toggles (Suc n) s =
     (if OUT_PIN_B (timer0_B s) = OUT_PIN_B s then 0 else 1) + toggles n (timer0_B s)"

text \<open>Whether the handler call number \<open>n + 1\<close> from state \<open>s\<close> changes the output pin.\<close>

definition toggle_tick :: "stateB \<Rightarrow> nat \<Rightarrow> bool" where
  "toggle_tick s n =
     (OUT_PIN_B ((timer0_B ^^ Suc n) s) \<noteq> OUT_PIN_B ((timer0_B ^^ n) s))"

text \<open>
  The state when \<open>main\<close> enters its loop: the statics have their initialisers, the
  uninitialised global is zero, the port registers contain 0xFF, the timer interrupt is
  not enabled yet and the global enable bit is set.
\<close>

definition start_B :: stateB where
  "start_B = \<lparr>Counter = 0, Increment = 0, OUT_PIN_B = True, pattern = 1,
     direction = True, LED_BANK_B = 0xFF, Swit = 0, ET0_B = False, EA_B = True\<rparr>"

section \<open>Square wave from timer 2 with a look-up table (FreqGen_timer2.c)\<close>

definition FREQ_MASK :: uint8 where
  "FREQ_MASK = 0x07"

definition LOW_BYTE_C :: uint16 where
  "LOW_BYTE_C = 0x00FF"

text \<open>Reload values for 200, 300, 400, 600, 800, 1600, 2400, 3600 Hz.\<close>

definition lookUp :: "uint16 list" where
  "lookUp = [37888, 47104, 51712, 56320, 58624, 62080, 63232, 64000]"

text \<open>
  The output frequencies named by the comment on the table, and the clock frequency
  of the header comment (11.0592 MHz), in Hz.
\<close>

definition lookUp_Hz :: "nat list" where
  "lookUp_Hz = [200, 300, 400, 600, 800, 1600, 2400, 3600]"

definition clock_Hz :: nat where
  "clock_Hz = 11059200"

text \<open>
  The registers, pins and \<open>main\<close>'s persistent locals. \<open>OUT_PIN\<close> is P3.6,
  \<open>LED_PIN\<close> is P3.4, \<open>LED_BANK\<close> is port 0, \<open>SWITCHES\<close> is the latch of port 2.
\<close>

record stateC =
  OUT_PIN_C :: bool
  TF2 :: bool
  LED_PIN :: bool
  LED_BANK_C :: uint8
  SWITCHES_C :: uint8
  RCAP2L :: uint8
  RCAP2H :: uint8
  T2CON :: uint8
  ET2 :: bool
  EA_C :: bool
  flash :: bool
  lastButton :: bool

text \<open>\<^verbatim>\<open>OUT_PIN = ~OUT_PIN; TF2 = 0;\<close>\<close>

definition timer2 :: "stateC \<Rightarrow> stateC" where
  "timer2 s = (s\<lparr>OUT_PIN_C := \<not> OUT_PIN_C s\<rparr>)\<lparr>TF2 := False\<rparr>"

text \<open>
  The part of \<open>main\<close> before the loop: the initialisers of \<open>flash\<close> and
  \<open>lastButton\<close> and the set-up of port 2 and timer 2.
\<close>

definition main_setup_C :: "stateC \<Rightarrow> stateC" where
  "main_setup_C s =
     s\<lparr>flash := True, lastButton := False, SWITCHES_C := 0xFF,
       T2CON := 0x04, ET2 := True, EA_C := True\<rparr>"

text \<open>
  One pass of the body of \<open>while (1)\<close>. \<open>sw\<close> is the value read from the switch
  port and \<open>int0\<close> the level of the INT0 pin during this pass. The result is the
  state at the end of the pass; the iteration count of the delay is dropped.
\<close>

definition main_loop_C :: "uint8 \<Rightarrow> bool \<Rightarrow> stateC \<Rightarrow> stateC" where
  "main_loop_C sw int0 s =
     (let temp = sw;
          freqNum = temp AND FREQ_MASK;
          reloadVal = lookUp ! unat freqNum;
          s = s\<lparr>RCAP2L := ucast (reloadVal AND LOW_BYTE_C)\<rparr>;
          s = s\<lparr>RCAP2H := ucast (drop_bit 8 reloadVal)\<rparr>;
          temp = (1 :: uint8);
          temp = push_bit (unat freqNum) temp;
          s = s\<lparr>LED_BANK_C := NOT temp\<rparr>;
          s = (if lastButton s \<and> \<not> int0 then s\<lparr>flash := \<not> flash s\<rparr> else s);
          s = s\<lparr>lastButton := int0\<rparr>;
          s = (if flash s then s\<lparr>LED_PIN := \<not> LED_PIN s\<rparr> else s\<lparr>LED_PIN := True\<rparr>)
      in snd (delay 60000 s))"

text \<open>The 16-bit reload value held in the register pair.\<close>

definition RCAP2 :: "stateC \<Rightarrow> uint16" where
  "RCAP2 s = push_bit 8 (ucast (RCAP2H s)) OR ucast (RCAP2L s)"

text \<open>
  The loop body run once for each element of a list of inputs: the switch value and
  the INT0 level of each pass.
\<close>

fun main_loops_C :: "(uint8 \<times> bool) list \<Rightarrow> stateC \<Rightarrow> stateC" where
  "main_loops_C [] s = s"
| "main_loops_C ((sw, int0) # inputs) s = main_loops_C inputs (main_loop_C sw int0 s)"

text \<open>
  The state at reset, before \<open>main\<close> runs: the port registers contain 0xFF (so every
  port pin reads 1), the timer and interrupt registers and the \<open>bit\<close> variables
  are clear.
\<close>

definition reset_C :: stateC where
  "reset_C = \<lparr>OUT_PIN_C = True, TF2 = False, LED_PIN = True, LED_BANK_C = 0xFF,
     SWITCHES_C = 0xFF, RCAP2L = 0, RCAP2H = 0, T2CON = 0, ET2 = False, EA_C = False,
     flash = False, lastButton = False\<rparr>"

section \<open>Properties of the delay\<close>

lemma word_less_Suc_unat:
  fixes i d :: "'a::len word"
  assumes "i < d"
  shows "unat (i + 1) = Suc (unat i)"
proof -
  have "unat i < unat d"
    using assms by (simp add: word_less_nat_alt)
  moreover have "unat d < 2 ^ LENGTH('a)"
    by (rule unsigned_less)
  ultimately have "Suc (unat i) < 2 ^ LENGTH('a)"
    by linarith
  then have "unat i + unat (1 :: 'a word) < 2 ^ LENGTH('a)"
    by simp
  then have "unat (i + 1) = unat i + unat (1 :: 'a word)"
    by (simp only: unat_add_lem)
  then show ?thesis
    by simp
qed

lemma delay_loop_count:
  "i \<le> delayVal \<Longrightarrow> delay_loop i delayVal n s = (n + (unat delayVal - unat i), s)"
proof (induction i delayVal n s rule: delay_loop.induct)
  case (1 i delayVal n s)
  show ?case
  proof (cases "i < delayVal")
    case True
    have suc: "unat (i + 1) = Suc (unat i)"
      using True by (rule word_less_Suc_unat)
    have le: "i + 1 \<le> delayVal"
      using True by (rule inc_le)
    have lt: "unat i < unat delayVal"
      using True by (simp add: word_less_nat_alt)
    have "delay_loop i delayVal n s = delay_loop (i + 1) delayVal (Suc n) s"
      using True by simp
    also have "\<dots> = (Suc n + (unat delayVal - unat (i + 1)), s)"
      using "1.IH" [OF True le] .
    also have "\<dots> = (n + (unat delayVal - unat i), s)"
      using lt suc by simp
    finally show ?thesis .
  next
    case False
    with "1.prems" have "i = delayVal"
      by simp
    then show ?thesis
      by simp
  qed
qed

lemma delay_eq: "delay delayVal s = (unat delayVal, s)"
  by (simp add: delay_def delay_loop_count del: delay_loop.simps)

text \<open>
  C10. For every 16-bit argument the delay returns (the function is total: its
  termination is proved where it is defined), after exactly \<open>delayVal\<close> passes of
  the loop body, none at all for \<open>delayVal = 0\<close>, and in the program state it was
  called in.
\<close>

theorem delay_total:
  "delay delayVal s = (unat delayVal, s) \<and> delay 0 s = (0, s)"
  by (simp add: delay_eq)

section \<open>Properties of the event flag program\<close>

lemma wait_TimeOver_SomeD:
  assumes "wait_TimeOver s = Some y"
  shows "TimeOver s \<and> y = s"
proof (rule wait_TimeOver.raw_induct [where P = "\<lambda>s y. TimeOver s \<and> y = s", OF _ assms])
  fix f :: "stateA \<Rightarrow> stateA option" and s sa
  assume IH: "\<And>x y. f x = Some y \<Longrightarrow> TimeOver x \<and> y = x"
    and eq: "(if \<not> TimeOver s then f s else Some s) = Some sa"
  show "TimeOver s \<and> sa = s"
  proof (cases "TimeOver s")
    case True
    with eq show ?thesis by simp
  next
    case False
    with eq have "f s = Some sa" by simp
    from IH [OF this] False show ?thesis by simp
  qed
qed

lemma wait_TimeOver_eq: "wait_TimeOver s = (if TimeOver s then Some s else None)"
proof (cases "TimeOver s")
  case True
  then show ?thesis by (subst wait_TimeOver.simps) simp
next
  case False
  then show ?thesis using wait_TimeOver_SomeD [of s] by (cases "wait_TimeOver s") auto
qed

lemma main_loop_A_eq:
  "main_loop_A s =
     (if TimeOver s then Some (s\<lparr>P3 := P3 s XOR 0x10, TimeOver := False\<rparr>) else None)"
  by (simp add: main_loop_A_def wait_TimeOver_eq)

lemma timer0_A_step:
  assumes K: "unat K < 65535" and inv: "unat (TimerTick s) \<le> unat K"
  shows "timer0_A K s =
     (if unat (TimerTick s) = unat K
      then s\<lparr>TimerTick := 0, TimeOver := True\<rparr>
      else s\<lparr>TimerTick := TimerTick s + 1\<rparr>)"
    and "unat (TimerTick s) \<noteq> unat K \<Longrightarrow> unat (TimerTick s + 1) = Suc (unat (TimerTick s))"
proof -
  have "unat (TimerTick s) + unat (1 :: uint16) < 2 ^ LENGTH(16)"
    using K inv by simp
  then have "unat (TimerTick s + 1) = unat (TimerTick s) + unat (1 :: uint16)"
    by (simp only: unat_add_lem)
  then have suc: "unat (TimerTick s + 1) = Suc (unat (TimerTick s))"
    by simp
  then show "unat (TimerTick s) \<noteq> unat K \<Longrightarrow> unat (TimerTick s + 1) = Suc (unat (TimerTick s))"
    by simp
  have "(K < TimerTick s + 1) = (unat (TimerTick s) = unat K)"
    using inv by (simp add: word_less_nat_alt suc) linarith
  then show "timer0_A K s =
     (if unat (TimerTick s) = unat K
      then s\<lparr>TimerTick := 0, TimeOver := True\<rparr>
      else s\<lparr>TimerTick := TimerTick s + 1\<rparr>)"
    by (simp add: timer0_A_def Let_def)
qed

lemma dvd_Suc_iff: "(Suc k dvd Suc n) = (n mod Suc k = k)"
  by (simp add: dvd_eq_mod_eq_0 mod_Suc)

lemma timer0_A_fields:
  assumes K: "unat K < 65535" and inv: "unat (TimerTick s) \<le> unat K"
  shows "unat (TimerTick (timer0_A K s)) = Suc (unat (TimerTick s)) mod Suc (unat K)"
    and "TimeOver (timer0_A K s) = (TimeOver s \<or> unat (TimerTick s) = unat K)"
    and "P3 (timer0_A K s) = P3 s"
proof -
  note step = timer0_A_step [OF K inv]
  show "unat (TimerTick (timer0_A K s)) = Suc (unat (TimerTick s)) mod Suc (unat K)"
  proof (cases "unat (TimerTick s) = unat K")
    case True
    then show ?thesis by (simp add: step(1))
  next
    case False
    with inv have "Suc (unat (TimerTick s)) < Suc (unat K)"
      by simp
    then have "Suc (unat (TimerTick s)) mod Suc (unat K) = Suc (unat (TimerTick s))"
      by (rule mod_less)
    with False show ?thesis
      by (simp add: step)
  qed
  show "TimeOver (timer0_A K s) = (TimeOver s \<or> unat (TimerTick s) = unat K)"
    by (simp add: step(1))
  show "P3 (timer0_A K s) = P3 s"
    by (simp add: step(1))
qed

lemma funpow_timer0_A:
  assumes K: "unat K < 65535" and zero: "TimerTick s = 0"
  shows "unat (TimerTick ((timer0_A K ^^ n) s)) = n mod Suc (unat K)
    \<and> TimeOver ((timer0_A K ^^ n) s) = (TimeOver s \<or> Suc (unat K) \<le> n)
    \<and> P3 ((timer0_A K ^^ n) s) = P3 s"
proof (induction n)
  case 0
  show ?case using zero by simp
next
  case (Suc n)
  let ?t = "(timer0_A K ^^ n) s"
  from Suc.IH have tt: "unat (TimerTick ?t) = n mod Suc (unat K)"
    and to: "TimeOver ?t = (TimeOver s \<or> Suc (unat K) \<le> n)"
    and p3: "P3 ?t = P3 s"
    by blast+
  have "n mod Suc (unat K) < Suc (unat K)"
    by (rule mod_less_divisor) simp
  then have inv: "unat (TimerTick ?t) \<le> unat K"
    by (simp add: tt)
  note f = timer0_A_fields [OF K inv]
  have 1: "unat (TimerTick ((timer0_A K ^^ Suc n) s)) = Suc n mod Suc (unat K)"
    by (simp add: f(1) tt mod_Suc_eq)
  have flag: "(Suc (unat K) \<le> n \<or> n mod Suc (unat K) = unat K) = (Suc (unat K) \<le> Suc n)"
  proof (cases "Suc (unat K) \<le> n")
    case True
    then show ?thesis by simp
  next
    case False
    then have "n mod Suc (unat K) = n"
      by simp
    with False show ?thesis by auto
  qed
  have 2: "TimeOver ((timer0_A K ^^ Suc n) s) = (TimeOver s \<or> Suc (unat K) \<le> Suc n)"
    using flag by (simp add: f(2) tt to disj_assoc del: Suc_le_mono)
  have 3: "P3 ((timer0_A K ^^ Suc n) s) = P3 s"
    by (simp add: f(3) p3)
  from 1 2 3 show ?case
    by blast
qed

lemma sets_TimeOver_iff:
  assumes K: "unat K < 65535" and inv: "unat (TimerTick s) \<le> unat K"
  shows "sets_TimeOver K s = (unat (TimerTick s) = unat K)"
proof -
  have inv': "unat (TimerTick (s\<lparr>TimeOver := False\<rparr>)) \<le> unat K"
    using inv by simp
  show ?thesis
    by (simp add: sets_TimeOver_def timer0_A_fields(2) [OF K inv'])
qed

lemma tick_A_fields:
  assumes K: "unat K < 65535" and inv: "unat (TimerTick s) \<le> unat K"
    and clear: "\<not> TimeOver s"
  shows "unat (TimerTick (tick_A K s)) = Suc (unat (TimerTick s)) mod Suc (unat K)"
    and "TimeOver (tick_A K s) = False"
    and "P3 (tick_A K s) = (if unat (TimerTick s) = unat K then P3 s XOR 0x10 else P3 s)"
  using clear
  by (simp_all add: tick_A_def Let_def main_loop_A_eq timer0_A_fields [OF K inv])

lemma xor_twice: "(x XOR y) XOR y = (x :: uint8)"
  by (simp add: xor.assoc)

lemma funpow_tick_A:
  assumes K: "unat K < 65535" and zero: "TimerTick s = 0" and clear: "\<not> TimeOver s"
  shows "unat (TimerTick ((tick_A K ^^ n) s)) = n mod Suc (unat K)
    \<and> TimeOver ((tick_A K ^^ n) s) = False
    \<and> P3 ((tick_A K ^^ n) s) = (if even (n div Suc (unat K)) then P3 s else P3 s XOR 0x10)"
proof (induction n)
  case 0
  show ?case using zero clear by simp
next
  case (Suc n)
  let ?t = "(tick_A K ^^ n) s"
  from Suc.IH have tt: "unat (TimerTick ?t) = n mod Suc (unat K)"
    and to: "\<not> TimeOver ?t"
    and p3: "P3 ?t = (if even (n div Suc (unat K)) then P3 s else P3 s XOR 0x10)"
    by blast+
  have "n mod Suc (unat K) < Suc (unat K)"
    by (rule mod_less_divisor) simp
  then have inv: "unat (TimerTick ?t) \<le> unat K"
    by (simp add: tt)
  note f = tick_A_fields [OF K inv to]
  have 1: "unat (TimerTick ((tick_A K ^^ Suc n) s)) = Suc n mod Suc (unat K)"
    by (simp add: f(1) tt mod_Suc_eq)
  have 2: "TimeOver ((tick_A K ^^ Suc n) s) = False"
    by (simp add: f(2))
  have 3: "P3 ((tick_A K ^^ Suc n) s)
      = (if even (Suc n div Suc (unat K)) then P3 s else P3 s XOR 0x10)"
  proof (cases "n mod Suc (unat K) = unat K")
    case True
    then have "Suc n div Suc (unat K) = Suc (n div Suc (unat K))"
      by (simp add: div_Suc mod_Suc)
    with True show ?thesis
      by (simp add: f(3) tt p3 xor_twice)
  next
    case False
    then have "Suc n div Suc (unat K) = n div Suc (unat K)"
      by (simp add: div_Suc mod_Suc)
    with False show ?thesis
      by (simp add: f(3) tt p3)
  qed
  from 1 2 3 show ?case
    by blast
qed

lemma P3_tick_A:
  assumes K: "unat K < 65535" and zero: "TimerTick s = 0" and clear: "\<not> TimeOver s"
  shows "P3 ((tick_A K ^^ n) s) = (if even (n div Suc (unat K)) then P3 s else P3 s XOR 0x10)"
  using funpow_tick_A [OF assms, of n] by blast

lemma xor_0x10_neq: "x XOR 0x10 \<noteq> (x :: uint8)"
proof
  assume "x XOR 0x10 = x"
  then have "(x XOR 0x10) XOR x = x XOR x"
    by simp
  then have "(0x10 :: uint8) = 0"
    by (simp add: xor.commute xor.left_commute)
  then show False
    by simp
qed

text \<open>
  C3. Let the threshold be \<open>K\<close> (below 65535, as \<open>NUM_INTS\<close> is), \<open>TimerTick = 0\<close>
  and the flag clear at the start. Then call number \<open>n + 1\<close> of the timer 0 handler
  sets \<open>TimeOver\<close> exactly when \<open>n + 1\<close> is a multiple of \<open>K + 1\<close>: first on call
  \<open>K + 1\<close>, then once every \<open>K + 1\<close> calls. After \<open>M\<close> calls with no foreground pass
  in between the flag is set exactly when \<open>M\<close> is at least \<open>K + 1\<close>; a pass of the
  foreground loop then returns, having toggled the output once and cleared the flag,
  and the next pass finds nothing pending (its wait does not return), however large
  \<open>M\<close> is: the events in between are lost.
\<close>

theorem event_timing:
  assumes "unat K < 65535" and "TimerTick s = 0" and "\<not> TimeOver s"
  shows "sets_TimeOver K ((timer0_A K ^^ n) s) = ((unat K + 1) dvd (n + 1))
    \<and> TimeOver ((timer0_A K ^^ M) s) = (unat K + 1 \<le> M)
    \<and> main_loop_A ((timer0_A K ^^ M) s)
        = (if unat K + 1 \<le> M
           then Some (((timer0_A K ^^ M) s)\<lparr>P3 := P3 s XOR 0x10, TimeOver := False\<rparr>)
           else None)
    \<and> main_loop_A (((timer0_A K ^^ M) s)\<lparr>P3 := P3 s XOR 0x10, TimeOver := False\<rparr>) = None"
proof -
  note n = funpow_timer0_A [OF assms(1,2), of n]
  note M = funpow_timer0_A [OF assms(1,2), of M]
  have "n mod Suc (unat K) < Suc (unat K)"
    by (rule mod_less_divisor) simp
  with n have inv: "unat (TimerTick ((timer0_A K ^^ n) s)) \<le> unat K"
    by simp
  have 1: "sets_TimeOver K ((timer0_A K ^^ n) s) = ((unat K + 1) dvd (n + 1))"
    using n by (simp add: sets_TimeOver_iff [OF assms(1) inv] dvd_Suc_iff)
  have 2: "TimeOver ((timer0_A K ^^ M) s) = (unat K + 1 \<le> M)"
    using M assms(3) by simp
  have 3: "main_loop_A ((timer0_A K ^^ M) s)
      = (if unat K + 1 \<le> M
         then Some (((timer0_A K ^^ M) s)\<lparr>P3 := P3 s XOR 0x10, TimeOver := False\<rparr>)
         else None)"
    using M assms(3) by (simp add: main_loop_A_eq)
  have 4: "main_loop_A (((timer0_A K ^^ M) s)\<lparr>P3 := P3 s XOR 0x10, TimeOver := False\<rparr>) = None"
    by (simp add: main_loop_A_eq)
  show ?thesis
    by (intro conjI) (rule 1 2 3 4)+
qed

theorem event_timing_witness:
  "unat NUM_INTS < 65535 \<and> TimerTick reset_A = 0 \<and> \<not> TimeOver reset_A
   \<and> \<not> sets_TimeOver NUM_INTS ((timer0_A NUM_INTS ^^ 11058) reset_A)
   \<and> sets_TimeOver NUM_INTS ((timer0_A NUM_INTS ^^ 11059) reset_A)
   \<and> \<not> TimeOver ((timer0_A NUM_INTS ^^ 11059) reset_A)
   \<and> TimeOver ((timer0_A NUM_INTS ^^ 11060) reset_A)
   \<and> TimeOver ((timer0_A NUM_INTS ^^ 50000) reset_A)
   \<and> main_loop_A ((timer0_A NUM_INTS ^^ 50000) reset_A)
       = Some (((timer0_A NUM_INTS ^^ 50000) reset_A)\<lparr>P3 := 0xEF, TimeOver := False\<rparr>)"
proof -
  have h1: "unat NUM_INTS < 65535" and h2: "TimerTick reset_A = 0"
    and h3: "\<not> TimeOver reset_A"
    by (simp_all add: NUM_INTS_def reset_A_def)
  have k: "unat NUM_INTS = 11059"
    by (simp add: NUM_INTS_def)
  have p: "P3 reset_A XOR 0x10 = 0xEF"
    by (simp add: reset_A_def)
  have a: "\<not> sets_TimeOver NUM_INTS ((timer0_A NUM_INTS ^^ 11058) reset_A)"
    using event_timing [OF h1 h2 h3, of 11058 0] by (simp add: k)
  have b: "sets_TimeOver NUM_INTS ((timer0_A NUM_INTS ^^ 11059) reset_A)"
    using event_timing [OF h1 h2 h3, of 11059 0] by (simp add: k)
  have c: "\<not> TimeOver ((timer0_A NUM_INTS ^^ 11059) reset_A)"
    using event_timing [OF h1 h2 h3, of 0 11059] by (simp add: k)
  have d: "TimeOver ((timer0_A NUM_INTS ^^ 11060) reset_A)"
    using event_timing [OF h1 h2 h3, of 0 11060] by (simp add: k)
  have e: "TimeOver ((timer0_A NUM_INTS ^^ 50000) reset_A)
      \<and> main_loop_A ((timer0_A NUM_INTS ^^ 50000) reset_A)
       = Some (((timer0_A NUM_INTS ^^ 50000) reset_A)\<lparr>P3 := 0xEF, TimeOver := False\<rparr>)"
    using event_timing [OF h1 h2 h3, of 0 50000] by (simp add: k p)
  from h1 h2 h3 a b c d e show ?thesis
    by blast
qed

text \<open>
  The statement that the output completes a full cycle every \<open>2 * NUM_INTS\<close> ticks
  does not hold: with the foreground serving every event at once, the output after
  \<open>2 * NUM_INTS = 22118\<close> ticks has changed once and differs from the output at the
  start.
\<close>

theorem output_period_counterexample:
  "2 * unat NUM_INTS = 22118
   \<and> P3 ((tick_A NUM_INTS ^^ 0) reset_A) = 0xFF
   \<and> P3 ((tick_A NUM_INTS ^^ 22118) reset_A) = 0xEF
   \<and> P3 ((tick_A NUM_INTS ^^ (2 * unat NUM_INTS)) reset_A) \<noteq> P3 ((tick_A NUM_INTS ^^ 0) reset_A)"
proof -
  have h1: "unat NUM_INTS < 65535" and h2: "TimerTick reset_A = 0"
    and h3: "\<not> TimeOver reset_A"
    by (simp_all add: NUM_INTS_def reset_A_def)
  have k: "unat NUM_INTS = 11059" and p: "P3 reset_A = 0xFF"
    by (simp_all add: NUM_INTS_def reset_A_def)
  have a: "P3 ((tick_A NUM_INTS ^^ 22118) reset_A) = 0xEF"
    using P3_tick_A [OF h1 h2 h3, of 22118] by (simp add: k p)
  show ?thesis
    using a by (simp add: k p)
qed

text \<open>
  C4, amended. With threshold \<open>K\<close> (below 65535), \<open>TimerTick = 0\<close> and the flag
  clear at the start, and the foreground serving every event before the next tick, the
  output port changes (in bit 4) exactly at the ticks whose number is a multiple of
  \<open>K + 1\<close>. So the output is back after \<open>2 * (K + 1)\<close> ticks and is inverted after
  \<open>K + 1\<close> ticks: a full cycle of the square wave takes \<open>2 * (NUM_INTS + 1)\<close> ticks.
\<close>

theorem output_period:
  assumes "unat K < 65535" and "TimerTick s = 0" and "\<not> TimeOver s"
  shows "P3 ((tick_A K ^^ n) s) = (if even (n div (unat K + 1)) then P3 s else P3 s XOR 0x10)
    \<and> (P3 ((tick_A K ^^ (n + 1)) s) \<noteq> P3 ((tick_A K ^^ n) s)) = ((unat K + 1) dvd (n + 1))
    \<and> P3 ((tick_A K ^^ (n + (unat K + 1))) s) = P3 ((tick_A K ^^ n) s) XOR 0x10
    \<and> P3 ((tick_A K ^^ (n + 2 * (unat K + 1))) s) = P3 ((tick_A K ^^ n) s)"
proof -
  let ?m = "Suc (unat K)"
  note closed = P3_tick_A [OF assms]
  have 1: "P3 ((tick_A K ^^ n) s) = (if even (n div (unat K + 1)) then P3 s else P3 s XOR 0x10)"
    by (simp add: closed)
  have c0: "P3 ((tick_A K ^^ n) s) = (if even (n div ?m) then P3 s else P3 s XOR 0x10)"
    by (rule closed)
  have c1: "P3 ((tick_A K ^^ Suc n) s) = (if even (Suc n div ?m) then P3 s else P3 s XOR 0x10)"
    by (rule closed)
  have "Suc n div ?m = (if ?m dvd Suc n then Suc (n div ?m) else n div ?m)"
    by (simp add: div_Suc dvd_eq_mod_eq_0)
  then have "(P3 ((tick_A K ^^ Suc n) s) \<noteq> P3 ((tick_A K ^^ n) s)) = (?m dvd Suc n)"
    unfolding c0 c1
    using xor_0x10_neq [of "P3 s"] xor_0x10_neq [of "P3 s", symmetric]
    by (cases "?m dvd Suc n") simp_all
  then have 2: "(P3 ((tick_A K ^^ (n + 1)) s) \<noteq> P3 ((tick_A K ^^ n) s)) = ((unat K + 1) dvd (n + 1))"
    by simp
  have c3: "P3 ((tick_A K ^^ (n + ?m)) s)
      = (if even ((n + ?m) div ?m) then P3 s else P3 s XOR 0x10)"
    by (rule closed)
  have d3: "(n + ?m) div ?m = n div ?m + 1"
    by (rule div_add_self2) simp
  have "P3 ((tick_A K ^^ (n + ?m)) s) = P3 ((tick_A K ^^ n) s) XOR 0x10"
    unfolding c3 d3 c0 by (simp add: xor_twice)
  then have 3: "P3 ((tick_A K ^^ (n + (unat K + 1))) s) = P3 ((tick_A K ^^ n) s) XOR 0x10"
    by simp
  have c4: "P3 ((tick_A K ^^ (n + 2 * ?m)) s)
      = (if even ((n + 2 * ?m) div ?m) then P3 s else P3 s XOR 0x10)"
    by (rule closed)
  have d4: "(n + 2 * ?m) div ?m = 2 + n div ?m"
    by (rule div_mult_self1) simp
  have "P3 ((tick_A K ^^ (n + 2 * ?m)) s) = P3 ((tick_A K ^^ n) s)"
    unfolding c4 d4 c0 by simp
  then have 4: "P3 ((tick_A K ^^ (n + 2 * (unat K + 1))) s) = P3 ((tick_A K ^^ n) s)"
    by simp
  show ?thesis
    by (intro conjI) (rule 1 2 3 4)+
qed

theorem output_period_witness:
  "unat NUM_INTS < 65535 \<and> TimerTick reset_A = 0 \<and> \<not> TimeOver reset_A
   \<and> P3 ((tick_A NUM_INTS ^^ 11059) reset_A) = 0xFF
   \<and> P3 ((tick_A NUM_INTS ^^ 11060) reset_A) = 0xEF
   \<and> P3 ((tick_A NUM_INTS ^^ 22119) reset_A) = 0xEF
   \<and> P3 ((tick_A NUM_INTS ^^ 22120) reset_A) = 0xFF"
proof -
  have h1: "unat NUM_INTS < 65535" and h2: "TimerTick reset_A = 0"
    and h3: "\<not> TimeOver reset_A"
    by (simp_all add: NUM_INTS_def reset_A_def)
  have k: "unat NUM_INTS = 11059" and p: "P3 reset_A = 0xFF"
    by (simp_all add: NUM_INTS_def reset_A_def)
  have a: "P3 ((tick_A NUM_INTS ^^ 11059) reset_A) = 0xFF"
    using output_period [OF h1 h2 h3, of 11059] by (simp add: k p)
  have b: "P3 ((tick_A NUM_INTS ^^ 11060) reset_A) = 0xEF"
    using output_period [OF h1 h2 h3, of 11060] by (simp add: k p)
  have c: "P3 ((tick_A NUM_INTS ^^ 22119) reset_A) = 0xEF"
    using output_period [OF h1 h2 h3, of 22119] by (simp add: k p)
  have d: "P3 ((tick_A NUM_INTS ^^ 22120) reset_A) = 0xFF"
    using output_period [OF h1 h2 h3, of 22120] by (simp add: k p)
  from h1 h2 h3 a b c d show ?thesis
    by blast
qed

section \<open>Properties of the phase accumulator program\<close>

subsection \<open>The accumulator\<close>

lemma LOW_BYTE_B_unat: "unat ((x :: uint16) AND LOW_BYTE_B) = unat x mod 256"
proof -
  have m: "LOW_BYTE_B = mask 8"
    by (simp add: LOW_BYTE_B_def mask_eq_exp_minus_1)
  have "unat (take_bit 8 x) = take_bit 8 (unat x)"
    by (rule unsigned_take_bit_eq)
  also have "\<dots> = unat x mod 256"
    by (simp add: take_bit_eq_mod)
  finally show ?thesis
    unfolding m by (simp only: take_bit_eq_mask)
qed

lemma HIGH_BYTE_zero: "(x :: uint16) AND HIGH_BYTE = 0 \<longleftrightarrow> unat x < 256"
proof -
  have m: "HIGH_BYTE = NOT (mask 8)"
    by (simp add: HIGH_BYTE_def mask_eq_exp_minus_1)
  have "x AND NOT (mask 8) = 0 \<longleftrightarrow> x AND mask 8 = x"
    by (auto simp: bit_eq_iff bit_simps)
  also have "\<dots> \<longleftrightarrow> uint x < 2 ^ 8"
    by (rule mask_eq_iff)
  also have "\<dots> \<longleftrightarrow> int (unat x) < int 256"
    by simp
  also have "\<dots> \<longleftrightarrow> unat x < 256"
    by (rule of_nat_less_iff)
  finally show ?thesis
    unfolding m .
qed

lemma unat_uint8_less: "unat (i :: uint8) < 256"
  using unsigned_less [of i] by simp

lemma unat_ucast_uint8: "unat (ucast (i :: uint8) :: uint16) = unat i"
proof -
  have "unat i < 2 ^ 16"
    using unat_uint8_less [of i] by simp
  then have "take_bit 16 (unat i) = unat i"
    by (rule take_bit_nat_eq_self)
  then show ?thesis
    by (simp add: unsigned_ucast_eq)
qed

lemma Counter_add_unat:
  assumes "unat (c :: uint16) < 256"
  shows "unat (c + ucast (i :: uint8)) = unat c + unat i"
proof -
  have "unat c + unat (ucast i :: uint16) < 2 ^ LENGTH(16)"
    using assms unat_uint8_less [of i] by (simp add: unat_ucast_uint8)
  then have "unat (c + ucast i) = unat c + unat (ucast i :: uint16)"
    by (simp only: unat_add_lem)
  then show ?thesis
    by (simp only: unat_ucast_uint8)
qed

lemma timer0_B_Counter:
  assumes "unat (Counter s) < 256"
  shows "unat (Counter (timer0_B s)) = (unat (Counter s) + unat (Increment s)) mod 256"
proof -
  have sum: "unat (Counter s + ucast (Increment s)) = unat (Counter s) + unat (Increment s)"
    using assms by (rule Counter_add_unat)
  show ?thesis
    by (simp add: timer0_B_def Let_def HIGH_BYTE_zero LOW_BYTE_B_unat sum)
qed

lemma timer0_B_OUT_PIN:
  assumes "unat (Counter s) < 256"
  shows "OUT_PIN_B (timer0_B s) =
    (if 256 \<le> unat (Counter s) + unat (Increment s) then \<not> OUT_PIN_B s else OUT_PIN_B s)"
proof -
  have sum: "unat (Counter s + ucast (Increment s)) = unat (Counter s) + unat (Increment s)"
    using assms by (rule Counter_add_unat)
  show ?thesis
    by (simp add: timer0_B_def Let_def HIGH_BYTE_zero sum not_less)
qed

lemma timer0_B_frame:
  "Increment (timer0_B s) = Increment s"
  "pattern (timer0_B s) = pattern s"
  "direction (timer0_B s) = direction s"
  "LED_BANK_B (timer0_B s) = LED_BANK_B s"
  "Swit (timer0_B s) = Swit s"
  "ET0_B (timer0_B s) = ET0_B s"
  "EA_B (timer0_B s) = EA_B s"
  by (simp_all add: timer0_B_def Let_def)

lemma timer0_B_Counter_bound: "unat (Counter (timer0_B s)) < 256"
proof (cases "(Counter s + ucast (Increment s)) AND HIGH_BYTE = 0")
  case True
  then have "Counter (timer0_B s) = Counter s + ucast (Increment s)"
    by (simp add: timer0_B_def Let_def)
  with True show ?thesis
    by (simp add: HIGH_BYTE_zero)
next
  case False
  then have "Counter (timer0_B s) = (Counter s + ucast (Increment s)) AND LOW_BYTE_B"
    by (simp add: timer0_B_def Let_def)
  then show ?thesis
    by (simp add: LOW_BYTE_B_unat)
qed

lemma div_mod_carry: "(x :: nat) div 256 + (x mod 256 + y) div 256 = (x + y) div 256"
proof -
  have "x + y = (x mod 256 + y) + (x div 256) * 256"
    by simp
  then have "(x + y) div 256 = ((x mod 256 + y) + (x div 256) * 256) div 256"
    by (simp only:)
  also have "\<dots> = x div 256 + (x mod 256 + y) div 256"
    by (rule div_mult_self1) simp
  finally show ?thesis by simp
qed

lemma toggles_eq:
  "unat (Counter s) < 256 \<Longrightarrow>
   toggles n s = (unat (Counter s) + n * unat (Increment s)) div 256"
proof (induction n arbitrary: s)
  case 0
  then show ?case by simp
next
  case (Suc n)
  let ?c = "unat (Counter s)" and ?i = "unat (Increment s)"
  have i: "?i < 256" by (rule unat_uint8_less)
  have c': "unat (Counter (timer0_B s)) = (?c + ?i) mod 256"
    using Suc.prems by (rule timer0_B_Counter)
  have b': "unat (Counter (timer0_B s)) < 256"
    by (rule timer0_B_Counter_bound)
  have "256 \<le> ?c + ?i \<Longrightarrow> (?c + ?i) div 256 = 1"
    using Suc.prems i by (simp add: div_nat_eqI)
  then have first: "(if OUT_PIN_B (timer0_B s) = OUT_PIN_B s then 0 else 1) = (?c + ?i) div 256"
    by (simp add: timer0_B_OUT_PIN [OF Suc.prems])
  have "toggles (Suc n) s = (?c + ?i) div 256 + toggles n (timer0_B s)"
    using first by simp
  also have "\<dots> = (?c + ?i) div 256 + ((?c + ?i) mod 256 + n * ?i) div 256"
    by (simp add: Suc.IH [OF b'] c' timer0_B_frame)
  also have "\<dots> = (?c + ?i + n * ?i) div 256"
    by (rule div_mod_carry)
  finally show ?case
    by (simp add: add.assoc)
qed

lemma funpow_timer0_B_Counter:
  "unat (Counter s) < 256 \<Longrightarrow>
   unat (Counter ((timer0_B ^^ n) s)) = (unat (Counter s) + n * unat (Increment s)) mod 256"
proof (induction n)
  case 0
  then show ?case by simp
next
  case (Suc n)
  have inc: "Increment ((timer0_B ^^ n) s) = Increment s"
    by (induction n) (simp_all add: timer0_B_frame)
  have b: "unat (Counter ((timer0_B ^^ n) s)) < 256"
    using Suc.prems by (cases n) (simp_all add: timer0_B_Counter_bound)
  have "unat (Counter ((timer0_B ^^ Suc n) s))
      = (unat (Counter ((timer0_B ^^ n) s)) + unat (Increment s)) mod 256"
    by (simp add: timer0_B_Counter [OF b] inc)
  also have "\<dots> = ((unat (Counter s) + n * unat (Increment s)) mod 256 + unat (Increment s)) mod 256"
    by (simp only: Suc.IH [OF Suc.prems])
  also have "\<dots> = (unat (Counter s) + n * unat (Increment s) + unat (Increment s)) mod 256"
    by (rule mod_add_left_eq)
  also have "\<dots> = (unat (Counter s) + Suc n * unat (Increment s)) mod 256"
    by (simp add: ac_simps)
  finally show ?case .
qed

lemma funpow_timer0_B_Increment: "Increment ((timer0_B ^^ n) s) = Increment s"
  by (induction n) (simp_all add: timer0_B_frame)

lemma funpow_timer0_B_bound:
  "unat (Counter s) < 256 \<Longrightarrow> unat (Counter ((timer0_B ^^ n) s)) < 256"
  by (cases n) (simp_all add: timer0_B_Counter_bound)

lemma carry_iff:
  fixes x i :: nat
  assumes "i < 256"
  shows "(256 \<le> x mod 256 + i) = ((x + i) div 256 = Suc (x div 256))"
    and "(\<not> 256 \<le> x mod 256 + i) = ((x + i) div 256 = x div 256)"
proof -
  have split: "(x + i) div 256 = x div 256 + (x mod 256 + i) div 256"
    by (rule div_mod_carry [symmetric])
  have "x mod 256 < 256"
    by simp
  with assms have lt: "x mod 256 + i < 2 * 256"
    by linarith
  show "(256 \<le> x mod 256 + i) = ((x + i) div 256 = Suc (x div 256))"
  proof (cases "256 \<le> x mod 256 + i")
    case True
    with lt have "(x mod 256 + i) div 256 = 1"
      by (simp add: div_nat_eqI)
    with True split show ?thesis by simp
  next
    case False
    then have "(x mod 256 + i) div 256 = 0"
      by simp
    with False split show ?thesis by simp
  qed
  then show "(\<not> 256 \<le> x mod 256 + i) = ((x + i) div 256 = x div 256)"
    using split lt by (cases "256 \<le> x mod 256 + i") (simp_all add: div_nat_eqI)
qed

lemma toggle_tick_iff:
  assumes "Counter s = 0"
  shows "toggle_tick s n =
    ((Suc n * unat (Increment s)) div 256 = Suc ((n * unat (Increment s)) div 256))"
    and "(\<not> toggle_tick s n) =
    ((Suc n * unat (Increment s)) div 256 = (n * unat (Increment s)) div 256)"
proof -
  let ?i = "unat (Increment s)" and ?t = "(timer0_B ^^ n) s"
  have c0: "unat (Counter s) < 256"
    using assms by simp
  have b: "unat (Counter ?t) < 256"
    using c0 by (rule funpow_timer0_B_bound)
  have c: "unat (Counter ?t) = (n * ?i) mod 256"
    using funpow_timer0_B_Counter [OF c0, of n] assms by simp
  have i: "?i < 256"
    by (rule unat_uint8_less)
  have tt: "toggle_tick s n = (256 \<le> (n * ?i) mod 256 + ?i)"
    by (simp add: toggle_tick_def timer0_B_OUT_PIN [OF b] c funpow_timer0_B_Increment)
  have sn: "Suc n * ?i = n * ?i + ?i"
    by simp
  show "toggle_tick s n = ((Suc n * ?i) div 256 = Suc ((n * ?i) div 256))"
    unfolding tt sn by (rule carry_iff(1) [OF i])
  show "(\<not> toggle_tick s n) = ((Suc n * ?i) div 256 = (n * ?i) div 256)"
    unfolding tt sn by (rule carry_iff(2) [OF i])
qed

lemma constant_between:
  fixes D :: "nat \<Rightarrow> nat"
  assumes "\<And>m. a < m \<Longrightarrow> m < b \<Longrightarrow> D (Suc m) = D m"
  shows "a < b \<Longrightarrow> D b = D (Suc a)"
  using assms
proof (induction b)
  case 0
  then show ?case by simp
next
  case (Suc b)
  show ?case
  proof (cases "a = b")
    case True
    then show ?thesis by simp
  next
    case False
    with Suc.prems(1) have ab: "a < b" by simp
    have "D b = D (Suc a)"
      using ab Suc.prems(2) by (intro Suc.IH) simp_all
    moreover have "D (Suc b) = D b"
      using ab by (intro Suc.prems(2)) simp_all
    ultimately show ?thesis by simp
  qed
qed

lemma gap_bounds:
  fixes i a b k :: nat
  assumes i: "0 < i"
    and 1: "a * i < 256 * k"
    and 2: "256 * (k + 1) \<le> (b + 1) * i"
    and 3: "256 * k \<le> (a + 1) * i"
    and 4: "b * i < 256 * (k + 1)"
    and ab: "a < b"
  shows "256 div i \<le> b - a \<and> b - a \<le> (256 + i - 1) div i"
proof
  have "a * i + 256 < (b + 1) * i"
    using 1 2 by simp
  then have "256 < (b + 1) * i - a * i"
    by simp
  also have "\<dots> = (b + 1 - a) * i"
    by (simp only: diff_mult_distrib)
  finally have "256 < (b + 1 - a) * i" .
  moreover have "256 div i * i \<le> 256"
    by simp
  ultimately have "256 div i * i < (b + 1 - a) * i"
    by linarith
  then have "256 div i < b + 1 - a"
    by simp
  then show "256 div i \<le> b - a"
    using ab by simp
next
  have "b * i < (a + 1) * i + 256"
    using 3 4 by simp
  then have "b * i - (a + 1) * i < 256"
    by simp
  then have small: "(b - (a + 1)) * i < 256"
    by (simp only: diff_mult_distrib)
  have "(256 + i - 1) div i * i + (256 + i - 1) mod i = 256 + i - 1"
    by (rule div_mult_mod_eq)
  moreover have "(256 + i - 1) mod i < i"
    using i by simp
  ultimately have "256 \<le> (256 + i - 1) div i * i"
    by linarith
  with small have "(b - (a + 1)) * i < (256 + i - 1) div i * i"
    by linarith
  then have "b - (a + 1) < (256 + i - 1) div i"
    by simp
  then show "b - a \<le> (256 + i - 1) div i"
    using ab by simp
qed

lemma toggle_gap:
  assumes c: "Counter s = 0" and i: "0 < unat (Increment s)"
    and ab: "a < b" and ta: "toggle_tick s a" and tb: "toggle_tick s b"
    and none: "\<forall>m. a < m \<and> m < b \<longrightarrow> \<not> toggle_tick s m"
  shows "256 div unat (Increment s) \<le> b - a
       \<and> b - a \<le> (256 + unat (Increment s) - 1) div unat (Increment s)"
proof -
  let ?i = "unat (Increment s)"
  define D where "D n = (n * ?i) div 256" for n
  have Da: "D (Suc a) = Suc (D a)"
    using ta by (simp add: toggle_tick_iff(1) [OF c] D_def)
  have Db: "D (Suc b) = Suc (D b)"
    using tb by (simp add: toggle_tick_iff(1) [OF c] D_def)
  have "\<And>m. a < m \<Longrightarrow> m < b \<Longrightarrow> D (Suc m) = D m"
    using none by (simp add: toggle_tick_iff(2) [OF c] D_def)
  then have Dab: "D b = D (Suc a)"
    using ab by (rule constant_between)
  define k where "k = D (Suc a)"
  have "D a < k"
    using Da by (simp add: k_def)
  then have 1: "a * ?i < 256 * k"
    by (simp add: D_def div_less_iff_less_mult mult.commute)
  have "k + 1 \<le> D (Suc b)"
    using Db Dab by (simp add: k_def)
  then have 2: "256 * (k + 1) \<le> (b + 1) * ?i"
    by (simp add: D_def less_eq_div_iff_mult_less_eq mult.commute)
  have "k \<le> D (Suc a)"
    by (simp add: k_def)
  then have 3: "256 * k \<le> (a + 1) * ?i"
    by (simp add: D_def less_eq_div_iff_mult_less_eq mult.commute)
  have "D b < k + 1"
    using Dab by (simp add: k_def)
  then have 4: "b * ?i < 256 * (k + 1)"
    by (simp add: D_def div_less_iff_less_mult mult.commute)
  show ?thesis
    using i 1 2 3 4 ab by (rule gap_bounds)
qed

lemma Set_Increment_range:
  "1 \<le> unat ((sw :: uint8) AND LOW_NIBBLE) + 1 \<and> unat ((sw AND LOW_NIBBLE) + 1) = unat (sw AND LOW_NIBBLE) + 1
   \<and> unat ((sw AND LOW_NIBBLE) + 1) \<le> 16"
proof -
  have le: "unat (sw AND LOW_NIBBLE) \<le> unat LOW_NIBBLE"
    by (rule word_and_le1 [THEN word_le_nat_alt [THEN iffD1]])
  then have n: "unat (sw AND LOW_NIBBLE) \<le> 15"
    by (simp add: LOW_NIBBLE_def)
  then have "unat (sw AND LOW_NIBBLE) + unat (1 :: uint8) < 2 ^ LENGTH(8)"
    by simp
  then have "unat ((sw AND LOW_NIBBLE) + 1) = unat (sw AND LOW_NIBBLE) + unat (1 :: uint8)"
    by (simp only: unat_add_lem)
  with n show ?thesis
    by simp
qed

lemma LEDwalk_frame:
  "Counter (LEDwalk s) = Counter s"
  "Increment (LEDwalk s) = Increment s"
  "OUT_PIN_B (LEDwalk s) = OUT_PIN_B s"
  "Swit (LEDwalk s) = Swit s"
  "ET0_B (LEDwalk s) = ET0_B s"
  "EA_B (LEDwalk s) = EA_B s"
  by (simp_all add: LEDwalk_def Let_def)

lemma exec_B_Counter_bound:
  "unat (Counter s) < 256 \<Longrightarrow> unat (Counter (exec_B e s)) < 256"
  by (cases e) (simp_all add: timer0_B_Counter_bound LEDwalk_frame delay_eq)

lemma run_B_Counter_bound:
  "unat (Counter s) < 256 \<Longrightarrow> unat (Counter (run_B es s)) < 256"
  by (induction es arbitrary: s) (simp_all add: exec_B_Counter_bound)

lemma main_loop_B_Increment:
  "Increment (main_loop_B sw s) = (sw AND LOW_NIBBLE) + 1"
  by (simp add: main_loop_B_def LEDwalk_frame delay_eq)

lemma timer0_B_overflow:
  assumes "unat (Counter s) < 256" and "256 \<le> unat (Counter s) + unat (Increment s)"
  shows "Counter (timer0_B s) = (Counter s + ucast (Increment s)) AND LOW_BYTE_B"
proof -
  have "unat (Counter s + ucast (Increment s)) = unat (Counter s) + unat (Increment s)"
    using assms(1) by (rule Counter_add_unat)
  with assms(2) have "(Counter s + ucast (Increment s)) AND HIGH_BYTE \<noteq> 0"
    by (simp add: HIGH_BYTE_zero)
  then show ?thesis
    by (simp add: timer0_B_def Let_def)
qed

text \<open>
  C1. With \<open>Counter = 0\<close> at the start and \<open>Increment\<close> fixed between 1 and 16,
  the number of output toggles in the first \<open>N\<close> calls of the timer 0 handler is
  the integer part of \<open>N * Increment / 256\<close>, so it differs from that quotient by
  less than 1. If calls number \<open>a + 1\<close> and \<open>b + 1\<close> toggle the output and no call
  between them does, then \<open>b - a\<close> lies between the quotient \<open>256 / Increment\<close>
  rounded down and rounded up.
\<close>

theorem frequency_law:
  assumes "1 \<le> unat (Increment s)" and "unat (Increment s) \<le> 16" and "Counter s = 0"
  shows "toggles N s = (N * unat (Increment s)) div 256
    \<and> 256 * toggles N s \<le> N * unat (Increment s)
    \<and> N * unat (Increment s) < 256 * (toggles N s + 1)
    \<and> (a < b \<and> toggle_tick s a \<and> toggle_tick s b
         \<and> (\<forall>m. a < m \<and> m < b \<longrightarrow> \<not> toggle_tick s m)
       \<longrightarrow> 256 div unat (Increment s) \<le> b - a
         \<and> b - a \<le> (256 + unat (Increment s) - 1) div unat (Increment s))"
proof -
  let ?i = "unat (Increment s)"
  have t: "toggles N s = (N * ?i) div 256"
    using toggles_eq [of s N] assms(3) by simp
  have lo: "256 * ((N * ?i) div 256) \<le> N * ?i"
    by simp
  have "N * ?i < 256 + 256 * ((N * ?i) div 256)"
    by (rule dividend_less_times_div) simp
  then have hi: "N * ?i < 256 * ((N * ?i) div 256 + 1)"
    by simp
  have pos: "0 < ?i"
    using assms(1) by simp
  show ?thesis
    using t lo hi toggle_gap [OF assms(3) pos, of a b] by simp
qed

theorem frequency_law_witness:
  "1 \<le> unat (Increment (start_B\<lparr>Increment := 3\<rparr>))
   \<and> unat (Increment (start_B\<lparr>Increment := 3\<rparr>)) \<le> 16
   \<and> Counter (start_B\<lparr>Increment := 3\<rparr>) = 0
   \<and> toggles 1000 (start_B\<lparr>Increment := 3\<rparr>) = 11
   \<and> toggle_tick (start_B\<lparr>Increment := 3\<rparr>) 85
   \<and> toggle_tick (start_B\<lparr>Increment := 3\<rparr>) 170
   \<and> list_all (\<lambda>m. \<not> toggle_tick (start_B\<lparr>Increment := 3\<rparr>) m) [86..<170]
   \<and> (85 :: nat) \<le> 170 - 85 \<and> (170 :: nat) - 85 \<le> 86"
proof -
  let ?s = "start_B\<lparr>Increment := 3\<rparr>"
  have h1: "1 \<le> unat (Increment ?s)" and h2: "unat (Increment ?s) \<le> 16"
    and h3: "Counter ?s = 0"
    by (simp_all add: start_B_def)
  have i: "unat (Increment ?s) = 3"
    by (simp add: start_B_def)
  have ta: "toggle_tick ?s 85" and tb: "toggle_tick ?s 170"
    by (simp_all add: toggle_tick_iff(1) [OF h3] i)
  have none: "\<forall>m. 85 < m \<and> m < 170 \<longrightarrow> \<not> toggle_tick ?s m"
  proof (intro allI impI)
    fix m :: nat
    assume m: "85 < m \<and> m < 170"
    then have "(m * 3) div 256 = 1" and "(Suc m * 3) div 256 = 1"
      by (simp_all add: div_nat_eqI)
    then show "\<not> toggle_tick ?s m"
      by (simp add: toggle_tick_iff(2) [OF h3] i)
  qed
  then have l: "list_all (\<lambda>m. \<not> toggle_tick ?s m) [86..<170]"
    by (simp add: list_all_iff)
  have "toggles 1000 ?s = 11 \<and> (85 :: nat) \<le> 170 - 85 \<and> (170 :: nat) - 85 \<le> 86"
    using frequency_law [OF h1 h2 h3, of 1000 85 170] ta tb none by (simp add: i)
  with h1 h2 h3 ta tb l show ?thesis
    by blast
qed

text \<open>
  C2. After every call of the timer 0 handler \<open>Counter\<close> is at most 255, whatever
  the state it was called in; and from a state with \<open>Counter\<close> at most 255 it stays
  so after any sequence of interrupts and foreground statements. A call in which
  \<open>Counter + Increment\<close> passes 255 inverts the output pin once and leaves the low
  byte of the sum, that is the sum less 256, in \<open>Counter\<close>; any other call leaves the
  pin alone and the sum in \<open>Counter\<close>. A pass of the foreground loop sets
  \<open>Increment\<close> to the low nibble of the switches plus 1, a value from 1 to 16.
  (The bounds on \<open>Counter\<close> need no assumption on \<open>Increment\<close>.)
\<close>

theorem accumulator_invariant:
  assumes "unat (Counter s) \<le> 255"
  shows "unat (Counter (timer0_B s')) \<le> 255
    \<and> unat (Counter (run_B es s)) \<le> 255
    \<and> (if 255 < unat (Counter s) + unat (Increment s)
        then OUT_PIN_B (timer0_B s) = (\<not> OUT_PIN_B s)
           \<and> Counter (timer0_B s) = (Counter s + ucast (Increment s)) AND 0xFF
           \<and> unat (Counter (timer0_B s)) = unat (Counter s) + unat (Increment s) - 256
        else OUT_PIN_B (timer0_B s) = OUT_PIN_B s
           \<and> unat (Counter (timer0_B s)) = unat (Counter s) + unat (Increment s))
    \<and> Increment (main_loop_B sw s) = (sw AND 0x0F) + 1
    \<and> 1 \<le> unat (Increment (main_loop_B sw s))
    \<and> unat (Increment (main_loop_B sw s)) \<le> 16"
proof -
  let ?c = "unat (Counter s)" and ?i = "unat (Increment s)"
  have c: "?c < 256"
    using assms by simp
  have i: "?i < 256"
    by (rule unat_uint8_less)
  have 1: "unat (Counter (timer0_B s')) \<le> 255"
    using timer0_B_Counter_bound [of s'] by simp
  have 2: "unat (Counter (run_B es s)) \<le> 255"
    using run_B_Counter_bound [OF c, of es] by simp
  have 3: "255 < ?c + ?i \<Longrightarrow> OUT_PIN_B (timer0_B s) = (\<not> OUT_PIN_B s)
      \<and> Counter (timer0_B s) = (Counter s + ucast (Increment s)) AND 0xFF
      \<and> unat (Counter (timer0_B s)) = ?c + ?i - 256"
  proof -
    assume "255 < ?c + ?i"
    then have over: "256 \<le> ?c + ?i"
      by simp
    have "?c + ?i - 256 < 256"
      using c i by linarith
    then have "(?c + ?i) mod 256 = ?c + ?i - 256"
      using over by (simp add: mod_nat_eqI)
    then have "unat (Counter (timer0_B s)) = ?c + ?i - 256"
      by (simp add: timer0_B_Counter [OF c])
    moreover have "OUT_PIN_B (timer0_B s) = (\<not> OUT_PIN_B s)"
      using over by (simp add: timer0_B_OUT_PIN [OF c])
    moreover have "Counter (timer0_B s) = (Counter s + ucast (Increment s)) AND 0xFF"
      using timer0_B_overflow [OF c over] by (simp add: LOW_BYTE_B_def)
    ultimately show ?thesis
      by blast
  qed
  have 4: "\<not> 255 < ?c + ?i \<Longrightarrow> OUT_PIN_B (timer0_B s) = OUT_PIN_B s
      \<and> unat (Counter (timer0_B s)) = ?c + ?i"
    by (simp add: timer0_B_OUT_PIN [OF c] timer0_B_Counter [OF c])
  have 5: "Increment (main_loop_B sw s) = (sw AND 0x0F) + 1"
    by (simp add: main_loop_B_Increment LOW_NIBBLE_def)
  have 6: "1 \<le> unat (Increment (main_loop_B sw s)) \<and> unat (Increment (main_loop_B sw s)) \<le> 16"
    using Set_Increment_range [of sw] by (simp add: main_loop_B_Increment)
  have 34: "if 255 < ?c + ?i
      then OUT_PIN_B (timer0_B s) = (\<not> OUT_PIN_B s)
         \<and> Counter (timer0_B s) = (Counter s + ucast (Increment s)) AND 0xFF
         \<and> unat (Counter (timer0_B s)) = ?c + ?i - 256
      else OUT_PIN_B (timer0_B s) = OUT_PIN_B s
         \<and> unat (Counter (timer0_B s)) = ?c + ?i"
  proof (cases "255 < ?c + ?i")
    case True
    show ?thesis
      unfolding if_P [OF True] using True by (rule 3)
  next
    case False
    show ?thesis
      unfolding if_not_P [OF False] using False by (rule 4)
  qed
  from 6 have 7: "1 \<le> unat (Increment (main_loop_B sw s))"
    and 8: "unat (Increment (main_loop_B sw s)) \<le> 16"
    by blast+
  show ?thesis
    by (intro conjI) (rule 1 2 34 5 7 8)+
qed

theorem accumulator_invariant_witness:
  "unat (Counter (start_B\<lparr>Counter := 250, Increment := 16\<rparr>)) \<le> 255
   \<and> unat (Counter (timer0_B (start_B\<lparr>Counter := 250, Increment := 16\<rparr>))) = 10
   \<and> OUT_PIN_B (timer0_B (start_B\<lparr>Counter := 250, Increment := 16\<rparr>)) = False
   \<and> unat (Counter (run_B [Read_SWITCHES 0x8F, Set_ET0, Interrupt, Set_Increment, Interrupt]
        (start_B\<lparr>Counter := 250, Increment := 16\<rparr>))) \<le> 255
   \<and> unat (Increment (main_loop_B 0x8F (start_B\<lparr>Counter := 250, Increment := 16\<rparr>))) \<le> 16"
proof -
  let ?s = "start_B\<lparr>Counter := 250, Increment := 16\<rparr>"
  have h: "unat (Counter ?s) \<le> 255"
    by (simp add: start_B_def)
  have v: "unat (Counter ?s) = 250" "unat (Increment ?s) = 16" "OUT_PIN_B ?s = True"
    by (simp_all add: start_B_def)
  show ?thesis
    using h accumulator_invariant [OF h, of ?s
        "[Read_SWITCHES 0x8F, Set_ET0, Interrupt, Set_Increment, Interrupt]" "0x8F"]
    by (simp add: v)
qed

subsection \<open>The walking LED\<close>

lemma LEDwalk_left:
  "direction s \<Longrightarrow> pattern (LEDwalk s) = push_bit 1 (pattern s)
     \<and> direction (LEDwalk s) = (push_bit 1 (pattern s) \<noteq> 0x80)
     \<and> LED_BANK_B (LEDwalk s) = NOT (push_bit 1 (pattern s))"
  by (simp add: LEDwalk_def Let_def)

lemma LEDwalk_right:
  "\<not> direction s \<Longrightarrow> pattern (LEDwalk s) = drop_bit 1 (pattern s)
     \<and> direction (LEDwalk s) = (drop_bit 1 (pattern s) = 0x01)
     \<and> LED_BANK_B (LEDwalk s) = NOT (drop_bit 1 (pattern s))"
  by (simp add: LEDwalk_def Let_def)

lemma LEDwalk_step:
  "pattern s = p \<Longrightarrow> direction s = d \<Longrightarrow>
   pattern (LEDwalk s) = (if d then push_bit 1 p else drop_bit 1 p)
   \<and> direction (LEDwalk s) = (if d then push_bit 1 p \<noteq> 0x80 else drop_bit 1 p = 0x01)"
  by (cases d) (simp_all add: LEDwalk_left LEDwalk_right)

lemma LEDwalk_funpow_cong:
  "pattern s = pattern t \<Longrightarrow> direction s = direction t \<Longrightarrow>
   pattern ((LEDwalk ^^ n) s) = pattern ((LEDwalk ^^ n) t)
   \<and> direction ((LEDwalk ^^ n) s) = direction ((LEDwalk ^^ n) t)"
proof (induction n)
  case 0
  then show ?case by simp
next
  case (Suc n)
  from Suc.IH [OF Suc.prems]
  have p: "pattern ((LEDwalk ^^ n) s) = pattern ((LEDwalk ^^ n) t)"
    and d: "direction ((LEDwalk ^^ n) s) = direction ((LEDwalk ^^ n) t)"
    by blast+
  show ?case
    using LEDwalk_step [OF p d] LEDwalk_step [OF refl refl, of "(LEDwalk ^^ n) t"]
    by simp
qed

lemma orbit_step:
  "m = n + 1 \<Longrightarrow> pattern ((LEDwalk ^^ n) s) = p \<Longrightarrow> direction ((LEDwalk ^^ n) s) = d \<Longrightarrow>
   pattern ((LEDwalk ^^ m) s) = (if d then push_bit 1 p else drop_bit 1 p)
   \<and> direction ((LEDwalk ^^ m) s) = (if d then push_bit 1 p \<noteq> 0x80 else drop_bit 1 p = 0x01)"
  using LEDwalk_step [of "(LEDwalk ^^ n) s" p d] by simp

lemma LEDwalk_orbit:
  assumes "pattern s = 1" and "direction s"
  shows "map (\<lambda>k. (pattern ((LEDwalk ^^ k) s), direction ((LEDwalk ^^ k) s)))
           [0, 1, 2, 3, 4, 5, 6, 7, 8, 9, 10, 11, 12, 13, 14]
         = [(0x01, True), (0x02, True), (0x04, True), (0x08, True), (0x10, True),
            (0x20, True), (0x40, True), (0x80, False), (0x40, False), (0x20, False),
            (0x10, False), (0x08, False), (0x04, False), (0x02, False), (0x01, True)]"
proof -
  have k0: "pattern ((LEDwalk ^^ 0) s) = 0x01 \<and> direction ((LEDwalk ^^ 0) s) = True"
    using assms by simp
  have k1: "pattern ((LEDwalk ^^ 1) s) = 0x02 \<and> direction ((LEDwalk ^^ 1) s) = True"
    using orbit_step [of 1 0 s "0x01" True] k0 by simp
  have k2: "pattern ((LEDwalk ^^ 2) s) = 0x04 \<and> direction ((LEDwalk ^^ 2) s) = True"
    using orbit_step [of 2 1 s "0x02" True] k1 by simp
  have k3: "pattern ((LEDwalk ^^ 3) s) = 0x08 \<and> direction ((LEDwalk ^^ 3) s) = True"
    using orbit_step [of 3 2 s "0x04" True] k2 by simp
  have k4: "pattern ((LEDwalk ^^ 4) s) = 0x10 \<and> direction ((LEDwalk ^^ 4) s) = True"
    using orbit_step [of 4 3 s "0x08" True] k3 by simp
  have k5: "pattern ((LEDwalk ^^ 5) s) = 0x20 \<and> direction ((LEDwalk ^^ 5) s) = True"
    using orbit_step [of 5 4 s "0x10" True] k4 by simp
  have k6: "pattern ((LEDwalk ^^ 6) s) = 0x40 \<and> direction ((LEDwalk ^^ 6) s) = True"
    using orbit_step [of 6 5 s "0x20" True] k5 by simp
  have k7: "pattern ((LEDwalk ^^ 7) s) = 0x80 \<and> direction ((LEDwalk ^^ 7) s) = False"
    using orbit_step [of 7 6 s "0x40" True] k6 by simp
  have k8: "pattern ((LEDwalk ^^ 8) s) = 0x40 \<and> direction ((LEDwalk ^^ 8) s) = False"
    using orbit_step [of 8 7 s "0x80" False] k7 by simp
  have k9: "pattern ((LEDwalk ^^ 9) s) = 0x20 \<and> direction ((LEDwalk ^^ 9) s) = False"
    using orbit_step [of 9 8 s "0x40" False] k8 by simp
  have k10: "pattern ((LEDwalk ^^ 10) s) = 0x10 \<and> direction ((LEDwalk ^^ 10) s) = False"
    using orbit_step [of 10 9 s "0x20" False] k9 by simp
  have k11: "pattern ((LEDwalk ^^ 11) s) = 0x08 \<and> direction ((LEDwalk ^^ 11) s) = False"
    using orbit_step [of 11 10 s "0x10" False] k10 by simp
  have k12: "pattern ((LEDwalk ^^ 12) s) = 0x04 \<and> direction ((LEDwalk ^^ 12) s) = False"
    using orbit_step [of 12 11 s "0x08" False] k11 by simp
  have k13: "pattern ((LEDwalk ^^ 13) s) = 0x02 \<and> direction ((LEDwalk ^^ 13) s) = False"
    using orbit_step [of 13 12 s "0x04" False] k12 by simp
  have k14: "pattern ((LEDwalk ^^ 14) s) = 0x01 \<and> direction ((LEDwalk ^^ 14) s) = True"
    using orbit_step [of 14 13 s "0x02" False] k13 by simp
  show ?thesis
    using k0 k1 k2 k3 k4 k5 k6 k7 k8 k9 k10 k11 k12 k13 k14 by simp
qed

text \<open>
  C7. From \<open>pattern = 1\<close> and \<open>direction = 1\<close> (left), seven calls of \<open>LEDwalk\<close>
  bring the pattern to 0x80 with the direction flipped to 0 (right), and fourteen calls
  bring back \<open>pattern = 1\<close> and \<open>direction = 1\<close>. The pair after \<open>n + 14\<close> calls is
  the pair after \<open>n\<close> calls, and the fourteen pairs of one round are listed: they are
  all different, so the walk has period 14.
\<close>

theorem LEDwalk_bounce:
  assumes "pattern s = 1" and "direction s"
  shows "pattern ((LEDwalk ^^ 7) s) = 0x80 \<and> direction ((LEDwalk ^^ 7) s) = False
    \<and> pattern ((LEDwalk ^^ 14) s) = 1 \<and> direction ((LEDwalk ^^ 14) s) = True
    \<and> pattern ((LEDwalk ^^ (n + 14)) s) = pattern ((LEDwalk ^^ n) s)
    \<and> direction ((LEDwalk ^^ (n + 14)) s) = direction ((LEDwalk ^^ n) s)
    \<and> map (\<lambda>k. (pattern ((LEDwalk ^^ k) s), direction ((LEDwalk ^^ k) s)))
          [0, 1, 2, 3, 4, 5, 6, 7, 8, 9, 10, 11, 12, 13, 14]
        = [(0x01, True), (0x02, True), (0x04, True), (0x08, True), (0x10, True),
           (0x20, True), (0x40, True), (0x80, False), (0x40, False), (0x20, False),
           (0x10, False), (0x08, False), (0x04, False), (0x02, False), (0x01, True)]"
proof -
  note orbit = LEDwalk_orbit [OF assms]
  from orbit have seven: "pattern ((LEDwalk ^^ 7) s) = 0x80 \<and> direction ((LEDwalk ^^ 7) s) = False"
    by simp
  from orbit have home: "pattern ((LEDwalk ^^ 14) s) = 1 \<and> direction ((LEDwalk ^^ 14) s) = True"
    by simp
  have "(LEDwalk ^^ (n + 14)) s = (LEDwalk ^^ n) ((LEDwalk ^^ 14) s)"
    by (simp only: funpow_add o_apply)
  moreover have "pattern ((LEDwalk ^^ n) ((LEDwalk ^^ 14) s)) = pattern ((LEDwalk ^^ n) s)
      \<and> direction ((LEDwalk ^^ n) ((LEDwalk ^^ 14) s)) = direction ((LEDwalk ^^ n) s)"
    using home assms by (intro LEDwalk_funpow_cong) simp_all
  ultimately have period: "pattern ((LEDwalk ^^ (n + 14)) s) = pattern ((LEDwalk ^^ n) s)
      \<and> direction ((LEDwalk ^^ (n + 14)) s) = direction ((LEDwalk ^^ n) s)"
    by (simp only:)
  from seven home period orbit show ?thesis
    by blast
qed

theorem LEDwalk_bounce_witness:
  "pattern start_B = 1 \<and> direction start_B
   \<and> pattern ((LEDwalk ^^ 7) start_B) = 0x80 \<and> direction ((LEDwalk ^^ 7) start_B) = False
   \<and> pattern ((LEDwalk ^^ 14) start_B) = 1 \<and> direction ((LEDwalk ^^ 14) start_B) = True"
proof -
  have p: "pattern start_B = 1" and d: "direction start_B"
    by (simp_all add: start_B_def)
  from LEDwalk_bounce [OF p d, of 0] p d show ?thesis
    by blast
qed

section \<open>Properties of the look-up table program\<close>

lemma bytes_of_uint16:
  "push_bit 8 (ucast (ucast (drop_bit 8 r) :: uint8)) OR ucast (ucast (r AND 0x00FF) :: uint8) = (r :: uint16)"
proof -
  have m: "(0x00FF :: uint16) = mask 8"
    by (simp add: mask_eq_exp_minus_1)
  show ?thesis
    unfolding m by (rule bit_word_eqI) (auto simp: bit_simps)
qed

lemma freqNum_bound: "unat (sw AND FREQ_MASK) < 8"
proof -
  have "unat (sw AND FREQ_MASK) \<le> unat FREQ_MASK"
    by (rule word_and_le1 [THEN word_le_nat_alt [THEN iffD1]])
  then show ?thesis by (simp add: FREQ_MASK_def)
qed

lemma main_loop_C_fields:
  "RCAP2L (main_loop_C sw int0 s) = ucast (lookUp ! unat (sw AND FREQ_MASK) AND LOW_BYTE_C)"
  "RCAP2H (main_loop_C sw int0 s) = ucast (drop_bit 8 (lookUp ! unat (sw AND FREQ_MASK)))"
  "LED_BANK_C (main_loop_C sw int0 s) = NOT (push_bit (unat (sw AND FREQ_MASK)) 1)"
  "flash (main_loop_C sw int0 s) = (if lastButton s \<and> \<not> int0 then \<not> flash s else flash s)"
  "lastButton (main_loop_C sw int0 s) = int0"
  "LED_PIN (main_loop_C sw int0 s) =
     (if flash (main_loop_C sw int0 s) then \<not> LED_PIN s else True)"
  "OUT_PIN_C (main_loop_C sw int0 s) = OUT_PIN_C s"
  "TF2 (main_loop_C sw int0 s) = TF2 s"
  by (simp_all add: main_loop_C_def delay_eq Let_def)

lemma main_loop_C_frame:
  "SWITCHES_C (main_loop_C sw int0 s) = SWITCHES_C s"
  "T2CON (main_loop_C sw int0 s) = T2CON s"
  "ET2 (main_loop_C sw int0 s) = ET2 s"
  "EA_C (main_loop_C sw int0 s) = EA_C s"
  by (simp_all add: main_loop_C_def delay_eq Let_def)

lemma RCAP2_main_loop_C:
  "RCAP2 (main_loop_C sw int0 s) = lookUp ! unat (sw AND FREQ_MASK)"
  by (simp add: RCAP2_def main_loop_C_fields LOW_BYTE_C_def bytes_of_uint16)

lemma RCAP2_selectors:
  "map (\<lambda>sel. RCAP2 (main_loop_C sel int0 s)) [0, 1, 2, 3, 4, 5, 6, 7]
     = [37888, 47104, 51712, 56320, 58624, 62080, 63232, 64000]"
  by (simp add: RCAP2_main_loop_C FREQ_MASK_def lookUp_def)

lemma lookUp_increasing: "sorted_wrt (<) lookUp"
  by (simp add: lookUp_def)

lemma lookUp_frequencies:
  "map2 (\<lambda>r f. (65536 - unat r) * (2 * f)) lookUp lookUp_Hz = [clock_Hz, clock_Hz, clock_Hz, clock_Hz, clock_Hz, clock_Hz, clock_Hz, clock_Hz]"
  by (simp add: lookUp_def lookUp_Hz_def clock_Hz_def )

text \<open>
  C5. Whatever the switch port reads, a pass of the foreground loop leaves in the reload
  register pair the table entry selected by the three low switch bits, the low byte in
  \<open>RCAP2L\<close> and the high byte in \<open>RCAP2H\<close>; the selector is always inside the
  table. For the selectors 0 to 7 the values written are those of the table, which is
  37888, 47104, 51712, 56320, 58624, 62080, 63232, 64000, strictly increasing. Each entry
  \<open>r\<close> counts \<open>65536 - r\<close> clock cycles per interrupt, two interrupts per output
  period, which at the clock frequency gives exactly 200, 300, 400, 600, 800, 1600,
  2400 and 3600 Hz.
\<close>

theorem reload_selection:
  "RCAP2 (main_loop_C sw int0 s) = lookUp ! unat (sw AND FREQ_MASK)
   \<and> unat (sw AND FREQ_MASK) < length lookUp
   \<and> RCAP2L (main_loop_C sw int0 s) = ucast (lookUp ! unat (sw AND FREQ_MASK) AND 0x00FF)
   \<and> RCAP2H (main_loop_C sw int0 s) = ucast (drop_bit 8 (lookUp ! unat (sw AND FREQ_MASK)))
   \<and> map (\<lambda>sel. RCAP2 (main_loop_C sel int0 s)) [0, 1, 2, 3, 4, 5, 6, 7]
       = [37888, 47104, 51712, 56320, 58624, 62080, 63232, 64000]
   \<and> lookUp = [37888, 47104, 51712, 56320, 58624, 62080, 63232, 64000]
   \<and> sorted_wrt (<) lookUp
   \<and> map2 (\<lambda>r f. (65536 - unat r) * (2 * f)) lookUp lookUp_Hz = [clock_Hz, clock_Hz, clock_Hz, clock_Hz, clock_Hz, clock_Hz, clock_Hz, clock_Hz]"
proof -
  have "unat (sw AND FREQ_MASK) < length lookUp"
    using freqNum_bound [of sw] by (simp add: lookUp_def)
  moreover have "lookUp = [37888, 47104, 51712, 56320, 58624, 62080, 63232, 64000]"
    by (simp add: lookUp_def)
  moreover have
    "RCAP2L (main_loop_C sw int0 s) = ucast (lookUp ! unat (sw AND FREQ_MASK) AND 0x00FF)"
    by (simp add: main_loop_C_fields LOW_BYTE_C_def)
  ultimately show ?thesis
    using RCAP2_main_loop_C RCAP2_selectors lookUp_increasing lookUp_frequencies
      main_loop_C_fields(2)
    by blast
qed

text \<open>
  C6. A call of the timer 2 handler inverts the output pin and clears \<open>TF2\<close>. Every
  other register, pin and variable keeps its value, and the handler reads none of them:
  it commutes with any write to the state owned by the foreground, and with a whole
  pass of the foreground loop.
\<close>

theorem timer2_frame:
  "OUT_PIN_C (timer2 s) = (\<not> OUT_PIN_C s)
   \<and> TF2 (timer2 s) = False
   \<and> LED_PIN (timer2 s) = LED_PIN s
   \<and> LED_BANK_C (timer2 s) = LED_BANK_C s
   \<and> SWITCHES_C (timer2 s) = SWITCHES_C s
   \<and> RCAP2L (timer2 s) = RCAP2L s
   \<and> RCAP2H (timer2 s) = RCAP2H s
   \<and> T2CON (timer2 s) = T2CON s
   \<and> ET2 (timer2 s) = ET2 s
   \<and> EA_C (timer2 s) = EA_C s
   \<and> flash (timer2 s) = flash s
   \<and> lastButton (timer2 s) = lastButton s
   \<and> timer2 (s\<lparr>LED_PIN := lp, LED_BANK_C := lb, SWITCHES_C := sw, RCAP2L := rl,
         RCAP2H := rh, flash := fl, lastButton := bt\<rparr>)
       = (timer2 s)\<lparr>LED_PIN := lp, LED_BANK_C := lb, SWITCHES_C := sw, RCAP2L := rl,
         RCAP2H := rh, flash := fl, lastButton := bt\<rparr>
   \<and> timer2 (main_loop_C sw' int0 s) = main_loop_C sw' int0 (timer2 s)"
  by (simp add: timer2_def main_loop_C_def delay_eq Let_def)

text \<open>
  C8. With \<open>lastButton = 0\<close> and any value of \<open>flash\<close> at the start, five passes
  of the foreground loop that read the INT0 levels 1, 1, 0, 0, 1 change \<open>flash\<close>
  exactly once, in the third pass, where the level goes from 1 to 0: the values of
  \<open>flash\<close> before the first pass and after each pass are listed.
\<close>

theorem button_edge:
  assumes "\<not> lastButton s"
  shows "map (\<lambda>k. flash (main_loops_C
            (take k [(sw1, True), (sw2, True), (sw3, False), (sw4, False), (sw5, True)]) s))
          [0, 1, 2, 3, 4, 5]
         = [flash s, flash s, flash s, \<not> flash s, \<not> flash s, \<not> flash s]"
  using assms by (simp add: main_loop_C_fields numeral_eq_Suc)

theorem button_edge_witness:
  "\<not> lastButton (main_setup_C reset_C)
   \<and> map (\<lambda>k. flash (main_loops_C
            (take k [(0xFF, True), (0xFF, True), (0xFF, False), (0xFF, False), (0xFF, True)])
            (main_setup_C reset_C)))
          [0, 1, 2, 3, 4, 5]
         = [True, True, True, False, False, False]"
proof -
  have h: "\<not> lastButton (main_setup_C reset_C)"
    by (simp add: main_setup_C_def reset_C_def)
  have f: "flash (main_setup_C reset_C)"
    by (simp add: main_setup_C_def reset_C_def)
  show ?thesis
    using h f button_edge [OF h, of "0xFF" "0xFF" "0xFF" "0xFF" "0xFF"] by simp
qed

text \<open>
  C9. At the end of a pass of the foreground loop the LED pin is the complement of
  its value at the start of the pass when \<open>flash\<close> (as updated by the button check
  of this pass) is 1, and is 1 when \<open>flash\<close> is 0. \<open>flash\<close> is 1 when \<open>main\<close>
  enters the loop.
\<close>

theorem flash_update:
  "LED_PIN (main_loop_C sw int0 s) = (if flash (main_loop_C sw int0 s) then \<not> LED_PIN s else True)
   \<and> flash (main_loop_C sw int0 s) = (if lastButton s \<and> \<not> int0 then \<not> flash s else flash s)
   \<and> flash (main_setup_C s0) = True"
  by (simp add: main_loop_C_fields main_setup_C_def)

end
